theory Spec2Isabelle
  imports Complex_Main "HOL-Library.Word"
begin

section \<open>Text, bytes and the builtin string operations the code calls\<close>

text \<open>
  A Python \<^verbatim>\<open>str\<close> is a sequence of Unicode code points (each below \<^verbatim>\<open>0x110000\<close>, lone
  surrogates included); a \<^verbatim>\<open>bytes\<close> object is a sequence of octets. The byte size that
  \<^verbatim>\<open>MaxSizeLogBuffer\<close> counts is the length of the UTF-8 encoding, so text is kept as code
  points and the codec is written out.
\<close>

type_synonym codepoint = nat
type_synonym str = "codepoint list"
type_synonym bytes = "8 word list"

datatype error =
    BufferClosedError
  | BufferNotFlushedError
  | UnicodeEncodeError
  | UnicodeDecodeError
  | TimeoutError
  | OtherError string

text \<open>A string literal of the source, as code points.\<close>

definition literal :: "string \<Rightarrow> str" where
  "literal cs = map of_char cs"

definition newline :: str where
  "newline = [10]"

text \<open>
  \<^verbatim>\<open>sep.join(xs)\<close>. The empty list gives the empty string, a singleton gives its element.
\<close>

fun join :: "str \<Rightarrow> str list \<Rightarrow> str" where
  "join sep [] = []"
| "join sep [x] = x"
| "join sep (x # y # ys) = x @ sep @ join sep (y # ys)"

text \<open>
  \<^verbatim>\<open>s.split(c)\<close> for a separator \<open>c\<close> of one character, which is the only way the source calls
  it (\<^verbatim>\<open>message.split('\n')\<close>). The result is never empty: the empty string splits into one
  empty line.
\<close>

fun split_on :: "codepoint \<Rightarrow> str \<Rightarrow> str list" where
  "split_on c [] = [[]]"
| "split_on c (x # xs) =
     (if x = c then [] # split_on c xs
      else (case split_on c xs of
              [] \<Rightarrow> [[x]]
            | l # ls \<Rightarrow> (x # l) # ls))"

subsection \<open>The UTF-8 codec (\<^verbatim>\<open>str.encode('utf-8')\<close>, \<^verbatim>\<open>bytes.decode('utf-8')\<close>, both strict)\<close>

text \<open>
  Encoding raises \<^verbatim>\<open>UnicodeEncodeError\<close> on a surrogate code point
  (\<^verbatim>\<open>0xD800\<close> to \<^verbatim>\<open>0xDFFF\<close>). Values from \<^verbatim>\<open>0x110000\<close> on are no code points of a Python string;
  the model rejects them as well.
\<close>

definition encode_codepoint :: "codepoint \<Rightarrow> error + bytes" where
  "encode_codepoint c =
     (if c < 0x80 then Inr [of_nat c]
      else if c < 0x800 then Inr [of_nat (0xC0 + c div 64), of_nat (0x80 + c mod 64)]
      else if 0xD800 \<le> c \<and> c \<le> 0xDFFF then Inl UnicodeEncodeError
      else if c < 0x10000 then
        Inr [of_nat (0xE0 + c div 4096), of_nat (0x80 + (c div 64) mod 64),
             of_nat (0x80 + c mod 64)]
      else if c < 0x110000 then
        Inr [of_nat (0xF0 + c div 262144), of_nat (0x80 + (c div 4096) mod 64),
             of_nat (0x80 + (c div 64) mod 64), of_nat (0x80 + c mod 64)]
      else Inl UnicodeEncodeError)"

fun encode_utf8 :: "str \<Rightarrow> error + bytes" where
  "encode_utf8 [] = Inr []"
| "encode_utf8 (c # cs) =
     (case encode_codepoint c of
        Inl e \<Rightarrow> Inl e
      | Inr bs \<Rightarrow> (case encode_utf8 cs of Inl e \<Rightarrow> Inl e | Inr rest \<Rightarrow> Inr (bs @ rest)))"

definition continuation :: "nat \<Rightarrow> bool" where
  "continuation b = (0x80 \<le> b \<and> b \<le> 0xBF)"

definition prepend :: "codepoint \<Rightarrow> error + str \<Rightarrow> error + str" where
  "prepend c r = (case r of Inl e \<Rightarrow> Inl e | Inr cs \<Rightarrow> Inr (c # cs))"

text \<open>
  Decoding accepts exactly the well-formed sequences: no overlong form, no encoded surrogate,
  nothing above \<^verbatim>\<open>0x10FFFF\<close>, no truncated or stray continuation byte.
\<close>

fun decode_octets :: "nat list \<Rightarrow> error + str" where
  "decode_octets [] = Inr []"
| "decode_octets (b0 # bs) =
     (if b0 < 0x80 then prepend b0 (decode_octets bs)
      else if 0xC2 \<le> b0 \<and> b0 \<le> 0xDF then
        (case bs of
           b1 # r \<Rightarrow>
             if continuation b1
             then prepend ((b0 - 0xC0) * 64 + (b1 - 0x80)) (decode_octets r)
             else Inl UnicodeDecodeError
         | _ \<Rightarrow> Inl UnicodeDecodeError)
      else if 0xE0 \<le> b0 \<and> b0 \<le> 0xEF then
        (case bs of
           b1 # b2 # r \<Rightarrow>
             if continuation b1 \<and> continuation b2
                \<and> (b0 = 0xE0 \<longrightarrow> 0xA0 \<le> b1) \<and> (b0 = 0xED \<longrightarrow> b1 \<le> 0x9F)
             then prepend ((b0 - 0xE0) * 4096 + (b1 - 0x80) * 64 + (b2 - 0x80))
                    (decode_octets r)
             else Inl UnicodeDecodeError
         | _ \<Rightarrow> Inl UnicodeDecodeError)
      else if 0xF0 \<le> b0 \<and> b0 \<le> 0xF4 then
        (case bs of
           b1 # b2 # b3 # r \<Rightarrow>
             if continuation b1 \<and> continuation b2 \<and> continuation b3
                \<and> (b0 = 0xF0 \<longrightarrow> 0x90 \<le> b1) \<and> (b0 = 0xF4 \<longrightarrow> b1 \<le> 0x8F)
             then prepend ((b0 - 0xF0) * 262144 + (b1 - 0x80) * 4096
                           + (b2 - 0x80) * 64 + (b3 - 0x80))
                    (decode_octets r)
             else Inl UnicodeDecodeError
         | _ \<Rightarrow> Inl UnicodeDecodeError)
      else Inl UnicodeDecodeError)"

definition decode_utf8 :: "bytes \<Rightarrow> error + str" where
  "decode_utf8 bs = decode_octets (map unat bs)"

section \<open>\<^verbatim>\<open>format.py\<close>\<close>

text \<open>
  \<^verbatim>\<open>format_message(message: Union[str, bytes], formatter: Callable) -> str\<close>. The per-line
  function is a parameter; by its contract it takes one line and returns the formatted line.
\<close>

datatype message = Text str | Raw bytes

definition format_message :: "message \<Rightarrow> (str \<Rightarrow> str) \<Rightarrow> error + str" where
  "format_message message fn =
     (case (case message of Raw bs \<Rightarrow> decode_utf8 bs | Text s \<Rightarrow> Inr s) of
        Inl e \<Rightarrow> Inl e
      | Inr text \<Rightarrow> Inr (join newline (map fn (split_on 10 text))))"

text \<open>
  \<^verbatim>\<open>formatter(fn)\<close>, the decorator: a partial application of \<^verbatim>\<open>format_message\<close>.
\<close>

definition formatter :: "(str \<Rightarrow> str) \<Rightarrow> message \<Rightarrow> error + str" where
  "formatter fn = (\<lambda>message. format_message message fn)"

section \<open>\<^verbatim>\<open>buffer.py\<close>\<close>

subsection \<open>State\<close>

text \<open>
  A coroutine method either returns or raises; the object keeps whatever the method did before
  the exception, so every method gives the outcome together with the object afterwards.
\<close>

datatype outcome = Returned | Raised error

text \<open>
  The sink \<^verbatim>\<open>_fn\<close> is called with one batch and returns (\<open>None\<close>) or raises (\<open>Some e\<close>). What it
  does may depend on the calls it has seen, which are its first argument. The formatter, by
  its contract, maps a message to the formatted message.

  The fields are those the three \<^verbatim>\<open>__init__\<close> methods set: \<open>buf_fn\<close> is \<^verbatim>\<open>_fn\<close>,
  \<open>buf_formatter\<close> is \<^verbatim>\<open>_formatter\<close>, \<open>buf_buffer\<close> is \<^verbatim>\<open>_buffer\<close>, \<open>buf_open\<close> is \<^verbatim>\<open>_open\<close>,
  \<open>buf_time\<close> is \<^verbatim>\<open>_buffer_time\<close>, \<open>buf_max_size\<close> is \<^verbatim>\<open>_max_size\<close>, \<open>buf_size\<close> is \<^verbatim>\<open>_size\<close>,
  and \<open>SizeExceeded\<close> is whether the event of that name is set. The subclasses are record
  extensions. \<open>sink_calls\<close> is no field of the class: it records, in order, every batch the
  sink has been invoked with. The lock \<^verbatim>\<open>_flush_lock\<close> has no
  field: no method suspends while it holds the lock (the bodies under
  \<^verbatim>\<open>async with self._flush_lock\<close> contain no \<^verbatim>\<open>await\<close>), so on the event loop every method below
  finds the lock free and runs as one step.
\<close>

record log_buffer =
  buf_fn :: "str list \<Rightarrow> str \<Rightarrow> error option"
  buf_formatter :: "(str \<Rightarrow> str) option"
  buf_buffer :: "str list"
  buf_open :: bool
  sink_calls :: "str list"

record timed_log_buffer = log_buffer +
  buf_time :: real

record max_size_log_buffer = timed_log_buffer +
  buf_max_size :: int
  buf_size :: int
  SizeExceeded :: bool

definition LogBuffer_init ::
  "(str list \<Rightarrow> str \<Rightarrow> error option) \<Rightarrow> (str \<Rightarrow> str) option \<Rightarrow> log_buffer" where
  "LogBuffer_init fn fmt =
     \<lparr>buf_fn = fn, buf_formatter = fmt, buf_buffer = [], buf_open = True, sink_calls = []\<rparr>"

definition TimedLogBuffer_init ::
  "(str list \<Rightarrow> str \<Rightarrow> error option) \<Rightarrow> real \<Rightarrow> (str \<Rightarrow> str) option \<Rightarrow> timed_log_buffer"
  where
  "TimedLogBuffer_init fn t fmt =
     \<lparr>buf_fn = fn, buf_formatter = fmt, buf_buffer = [], buf_open = True, sink_calls = [],
      buf_time = t\<rparr>"

definition MaxSizeLogBuffer_init ::
  "(str list \<Rightarrow> str \<Rightarrow> error option) \<Rightarrow> real \<Rightarrow> int \<Rightarrow> (str \<Rightarrow> str) option
     \<Rightarrow> max_size_log_buffer" where
  "MaxSizeLogBuffer_init fn t m fmt =
     \<lparr>buf_fn = fn, buf_formatter = fmt, buf_buffer = [], buf_open = True, sink_calls = [],
      buf_time = t, buf_max_size = m, buf_size = 0, SizeExceeded = False\<rparr>"

subsection \<open>\<^verbatim>\<open>LogBuffer\<close>\<close>

text \<open>Lines 39 and 40, shared by both \<^verbatim>\<open>__call__\<close> methods.\<close>

definition apply_formatter :: "'a log_buffer_scheme \<Rightarrow> str \<Rightarrow> str" where
  "apply_formatter s message =
     (case buf_formatter s of None \<Rightarrow> message | Some f \<Rightarrow> f message)"

text \<open>The call \<^verbatim>\<open>self._fn(batch)\<close>: the batch is recorded, the sink decides the outcome.\<close>

definition call_sink :: "'a log_buffer_scheme \<Rightarrow> str \<Rightarrow> error option \<times> 'a log_buffer_scheme" where
  "call_sink s batch =
     (buf_fn s (sink_calls s) batch, s\<lparr>sink_calls := sink_calls s @ [batch]\<rparr>)"

text \<open>\<^verbatim>\<open>LogBuffer.flush\<close>, lines 31 to 36.\<close>

definition LogBuffer_flush :: "'a log_buffer_scheme \<Rightarrow> outcome \<times> 'a log_buffer_scheme" where
  "LogBuffer_flush s =
     (if buf_buffer s = [] then (Returned, s)
      else (case call_sink s (join newline (buf_buffer s)) of
              (Some e, s1) \<Rightarrow> (Raised e, s1)
            | (None, s1) \<Rightarrow> (Returned, s1\<lparr>buf_buffer := []\<rparr>)))"

text \<open>\<^verbatim>\<open>LogBuffer.__call__\<close>, lines 38 to 45.\<close>

definition LogBuffer_call ::
  "'a log_buffer_scheme \<Rightarrow> str \<Rightarrow> outcome \<times> 'a log_buffer_scheme" where
  "LogBuffer_call s message =
     (let message = apply_formatter s message in
      if \<not> buf_open s then (Raised BufferClosedError, s)
      else (Returned, s\<lparr>buf_buffer := buf_buffer s @ [message]\<rparr>))"

text \<open>\<^verbatim>\<open>LogBuffer.close\<close>, lines 47 to 49, and \<^verbatim>\<open>LogBuffer.__del__\<close>, lines 51 to 55.\<close>

definition LogBuffer_close :: "'a log_buffer_scheme \<Rightarrow> outcome \<times> 'a log_buffer_scheme" where
  "LogBuffer_close s = (Returned, s\<lparr>buf_open := False\<rparr>)"

definition LogBuffer_del :: "'a log_buffer_scheme \<Rightarrow> outcome" where
  "LogBuffer_del s = (if buf_buffer s \<noteq> [] then Raised BufferNotFlushedError else Returned)"

text \<open>
  What the other tasks do with the buffer while a flush loop is suspended: calls of the three
  public methods. An exception of such a call goes to its caller, not to the loop.
\<close>

datatype request = Append str | Flush | Close

definition LogBuffer_request ::
  "request \<Rightarrow> 'a log_buffer_scheme \<Rightarrow> outcome \<times> 'a log_buffer_scheme" where
  "LogBuffer_request r s =
     (case r of
        Append message \<Rightarrow> LogBuffer_call s message
      | Flush \<Rightarrow> LogBuffer_flush s
      | Close \<Rightarrow> LogBuffer_close s)"

fun LogBuffer_requests :: "request list \<Rightarrow> 'a log_buffer_scheme \<Rightarrow> 'a log_buffer_scheme" where
  "LogBuffer_requests [] s = s"
| "LogBuffer_requests (r # rs) s = LogBuffer_requests rs (snd (LogBuffer_request r s))"

subsection \<open>\<^verbatim>\<open>TimedLogBuffer\<close>\<close>

text \<open>
  \<^verbatim>\<open>flush_loop\<close> suspends only in \<^verbatim>\<open>asyncio.sleep\<close>. The schedule lists, for each sleep in turn,
  the requests the other tasks make during it. The loop may run forever; a schedule that ends
  while the loop sleeps gives \<open>None\<close>.
\<close>

text \<open>\<^verbatim>\<open>TimedLogBuffer.flush_loop\<close>, lines 72 to 76.\<close>

fun TimedLogBuffer_flush_loop ::
  "request list list \<Rightarrow> timed_log_buffer \<Rightarrow> outcome option \<times> timed_log_buffer" where
  "TimedLogBuffer_flush_loop sched s =
     (if buf_open s then
        (case LogBuffer_flush s of
           (Raised e, s1) \<Rightarrow> (Some (Raised e), s1)
         | (Returned, s1) \<Rightarrow>
             (case sched of
                [] \<Rightarrow> (None, s1)
              | others # rest \<Rightarrow> TimedLogBuffer_flush_loop rest (LogBuffer_requests others s1)))
      else (case LogBuffer_flush s of (r, s1) \<Rightarrow> (Some r, s1)))"

subsection \<open>\<^verbatim>\<open>MaxSizeLogBuffer\<close>\<close>

text \<open>
  \<^verbatim>\<open>MaxSizeLogBuffer.__call__\<close>, lines 98 to 108. The message is appended (line 105) before
  its encoding is computed (line 106), so an encoding error leaves it in the buffer; the
  event is set after the lock is released, in the same step.
\<close>

definition MaxSizeLogBuffer_call ::
  "max_size_log_buffer \<Rightarrow> str \<Rightarrow> outcome \<times> max_size_log_buffer" where
  "MaxSizeLogBuffer_call s message =
     (let message = apply_formatter s message in
      if \<not> buf_open s then (Raised BufferClosedError, s)
      else
        (let s1 = s\<lparr>buf_buffer := buf_buffer s @ [message]\<rparr> in
         case encode_utf8 message of
           Inl e \<Rightarrow> (Raised e, s1)
         | Inr encoded \<Rightarrow>
             (let s2 = s1\<lparr>buf_size := buf_size s1 + int (length encoded)\<rparr> in
              if buf_size s2 > buf_max_size s2 then (Returned, s2\<lparr>SizeExceeded := True\<rparr>)
              else (Returned, s2))))"

text \<open>\<^verbatim>\<open>MaxSizeLogBuffer.flush\<close>, lines 127 to 134.\<close>

definition MaxSizeLogBuffer_flush :: "max_size_log_buffer \<Rightarrow> outcome \<times> max_size_log_buffer" where
  "MaxSizeLogBuffer_flush s =
     (if buf_buffer s = [] then (Returned, s)
      else (case call_sink s (join newline (buf_buffer s)) of
              (Some e, s1) \<Rightarrow> (Raised e, s1)
            | (None, s1) \<Rightarrow>
                (Returned, s1\<lparr>buf_buffer := [], buf_size := 0, SizeExceeded := False\<rparr>)))"

definition MaxSizeLogBuffer_request ::
  "request \<Rightarrow> max_size_log_buffer \<Rightarrow> outcome \<times> max_size_log_buffer" where
  "MaxSizeLogBuffer_request r s =
     (case r of
        Append message \<Rightarrow> MaxSizeLogBuffer_call s message
      | Flush \<Rightarrow> MaxSizeLogBuffer_flush s
      | Close \<Rightarrow> LogBuffer_close s)"

fun MaxSizeLogBuffer_requests :: "request list \<Rightarrow> max_size_log_buffer \<Rightarrow> max_size_log_buffer"
  where
  "MaxSizeLogBuffer_requests [] s = s"
| "MaxSizeLogBuffer_requests (r # rs) s =
     MaxSizeLogBuffer_requests rs (snd (MaxSizeLogBuffer_request r s))"

text \<open>
  \<^verbatim>\<open>asyncio.wait_for(self.SizeExceeded.wait(), self._buffer_time)\<close>. What the other tasks do
  while the loop is suspended in it is given in three parts: the requests made before the
  inner \<^verbatim>\<open>SizeExceeded.wait()\<close> starts, the requests made while it waits and the timer has not
  fired, and the requests made after the wake-up is decided (the event was set, or the timer
  fired) and before the loop runs again.
\<close>

datatype wait_schedule = Wait "request list" "request list" "request list"

text \<open>
  The inner wait, started with the event clear: the first request that sets the event ends it
  and \<^verbatim>\<open>wait_for\<close> returns, also when the event is cleared again before the loop runs; when no
  request before the timer sets the event, \<^verbatim>\<open>wait_for\<close> raises \<^verbatim>\<open>asyncio.TimeoutError\<close>, also
  when a later request sets it.
\<close>

fun await_event ::
  "request list \<Rightarrow> request list \<Rightarrow> max_size_log_buffer \<Rightarrow> outcome \<times> max_size_log_buffer" where
  "await_event [] late s = (Raised TimeoutError, MaxSizeLogBuffer_requests late s)"
| "await_event (r # rs) late s =
     (let s1 = snd (MaxSizeLogBuffer_request r s) in
      if SizeExceeded s1 then (Returned, MaxSizeLogBuffer_requests (rs @ late) s1)
      else await_event rs late s1)"

text \<open>
  With a timeout that is not positive, \<^verbatim>\<open>wait_for\<close> cancels the inner wait before it starts
  and raises \<^verbatim>\<open>asyncio.TimeoutError\<close>, whether the event is set or not. Otherwise the inner
  wait returns at once when it finds the event set as it starts, and waits when it finds it
  clear.
\<close>

fun wait_for :: "wait_schedule \<Rightarrow> max_size_log_buffer \<Rightarrow> outcome \<times> max_size_log_buffer" where
  "wait_for (Wait early during late) s =
     (if buf_time s \<le> 0
      then (Raised TimeoutError, MaxSizeLogBuffer_requests (early @ during @ late) s)
      else
        (let s1 = MaxSizeLogBuffer_requests early s in
         if SizeExceeded s1 then (Returned, MaxSizeLogBuffer_requests (during @ late) s1)
         else await_event during late s1))"

definition size_marker :: str where
  "size_marker = literal ''[flusher] maximum buffer size exceeded''"

definition time_marker :: str where
  "time_marker = literal ''[flusher] maximum buffer time exceeded''"

text \<open>
  Lines 117 to 123, the \<^verbatim>\<open>try\<close> statement of the loop body: the handler catches
  \<^verbatim>\<open>asyncio.TimeoutError\<close> only, and an exception raised in the handler leaves the loop.
\<close>

definition wait_and_mark ::
  "wait_schedule \<Rightarrow> max_size_log_buffer \<Rightarrow> outcome \<times> max_size_log_buffer" where
  "wait_and_mark others s =
     (case (case wait_for others s of
              (Returned, s1) \<Rightarrow> MaxSizeLogBuffer_call s1 size_marker
            | (Raised e, s1) \<Rightarrow> (Raised e, s1)) of
        (Raised TimeoutError, s2) \<Rightarrow> MaxSizeLogBuffer_call s2 time_marker
      | (r, s2) \<Rightarrow> (r, s2))"

text \<open>
  \<^verbatim>\<open>MaxSizeLogBuffer.flush_loop\<close>, lines 116 to 125. The schedule lists, for each wait in turn,
  what the other tasks do during it; a schedule that ends while the loop waits gives \<open>None\<close>.
\<close>

fun MaxSizeLogBuffer_flush_loop ::
  "wait_schedule list \<Rightarrow> max_size_log_buffer \<Rightarrow> outcome option \<times> max_size_log_buffer" where
  "MaxSizeLogBuffer_flush_loop sched s =
     (if buf_open s then
        (case sched of
           [] \<Rightarrow> (None, s)
         | others # rest \<Rightarrow>
             (case wait_and_mark others s of
                (Raised e, s1) \<Rightarrow> (Some (Raised e), s1)
              | (Returned, s1) \<Rightarrow>
                  (case MaxSizeLogBuffer_flush s1 of
                     (Raised e, s2) \<Rightarrow> (Some (Raised e), s2)
                   | (Returned, s2) \<Rightarrow> MaxSizeLogBuffer_flush_loop rest s2)))
      else (case MaxSizeLogBuffer_flush s of (r, s1) \<Rightarrow> (Some r, s1)))"

subsection \<open>Notions the properties are stated with\<close>

text \<open>
  A message is encodable when \<^verbatim>\<open>message.encode('utf-8')\<close> returns; its encoded size is
  \<^verbatim>\<open>len(message.encode('utf-8'))\<close>.
\<close>

definition encodable :: "str \<Rightarrow> bool" where
  "encodable m = (case encode_utf8 m of Inl e \<Rightarrow> False | Inr bs \<Rightarrow> True)"

definition encoded_size :: "str \<Rightarrow> int" where
  "encoded_size m = (case encode_utf8 m of Inl e \<Rightarrow> 0 | Inr bs \<Rightarrow> int (length bs))"

text \<open>
  The size counter tracks the pending messages: each of them has a UTF-8 encoding and the
  counter is the sum of their encoded sizes.
\<close>

definition size_tracks :: "max_size_log_buffer \<Rightarrow> bool" where
  "size_tracks s =
     (list_all encodable (buf_buffer s)
      \<and> buf_size s = sum_list (map encoded_size (buf_buffer s)))"

text \<open>With nothing pending, the counter is zero and the event is clear.\<close>

definition drained_clean :: "max_size_log_buffer \<Rightarrow> bool" where
  "drained_clean s = (buf_buffer s \<noteq> [] \<or> (buf_size s = 0 \<and> \<not> SizeExceeded s))"

section \<open>Properties of the string operations\<close>

lemma split_on_nonempty: "split_on c s \<noteq> []"
  by (induction s) (auto split: list.splits)

lemma join_split_on: "join [c] (split_on c s) = s"
proof (induction s)
  case Nil
  show ?case by simp
next
  case (Cons x xs)
  obtain l ls where sp: "split_on c xs = l # ls"
    using split_on_nonempty[of c xs] by (cases "split_on c xs") auto
  show ?case
  proof (cases "x = c")
    case True
    then show ?thesis using Cons sp by simp
  next
    case False
    then show ?thesis using Cons sp by (cases ls) auto
  qed
qed

lemma split_on_lines: "l \<in> set (split_on c s) \<Longrightarrow> c \<notin> set l"
  by (induction s arbitrary: l) (auto split: if_splits list.splits)

lemma join_snoc: "join sep (xs @ [x]) = (if xs = [] then x else join sep xs @ sep @ x)"
  by (induction sep xs rule: join.induct) auto

subsection \<open>Decoding inverts encoding\<close>

lemma unat_octet: "n < 256 \<Longrightarrow> unat (of_nat n :: 8 word) = n"
  by (simp add: unat_of_nat)

lemma decode_one:
  assumes "c < 0x80"
  shows "decode_octets (c # rest) = prepend c (decode_octets rest)"
  using assms by simp

lemma decode_two:
  assumes "0x80 \<le> c" and "c < 0x800"
  shows "decode_octets ((0xC0 + c div 64) # (0x80 + c mod 64) # rest)
           = prepend c (decode_octets rest)"
proof -
  have "0xC2 \<le> 0xC0 + c div 64" "0xC0 + c div 64 \<le> 0xDF" "\<not> 0xC0 + c div 64 < 0x80"
    using assms by simp_all
  moreover have "continuation (0x80 + c mod 64)"
    by (simp add: continuation_def) 
  moreover have "(0xC0 + c div 64 - 0xC0) * 64 + (0x80 + c mod 64 - 0x80) = c"
    by simp
  ultimately show ?thesis by simp
qed


lemma mod_window:
  fixes d :: nat
  assumes "k * n \<le> d" and "d < k * n + n"
  shows "d mod n = d - k * n"
proof -
  have "d = (d - k * n) + k * n"
    using assms(1) by simp
  then have "d mod n = (d - k * n) mod n"
    by (metis mod_mult_self1)
  also have "\<dots> = d - k * n"
    using assms by (intro mod_less) linarith
  finally show ?thesis .
qed

lemma div_window:
  fixes c :: nat
  assumes "c div n = k" and "0 < n"
  shows "k * n \<le> c" and "c < k * n + n"
proof -
  have "k * n + c mod n = c"
    using div_mult_mod_eq[of c n] assms(1) by simp
  moreover have "c mod n < n"
    using assms(2) by simp
  ultimately show "k * n \<le> c" and "c < k * n + n"
    by linarith+
qed

lemma three_parts:
  fixes c :: nat
  shows "c div 4096 * 4096 + c div 64 mod 64 * 64 + c mod 64 = c"
proof -
  define d where "d = c div 64"
  have top: "c div 4096 = d div 64"
    unfolding d_def using div_mult2_eq[of c 64 64] by simp
  have "(a * 64 + b) * 64 = a * 4096 + b * 64" for a b :: nat
    by (simp add: algebra_simps)
  then have "d div 64 * 4096 + d mod 64 * 64 = (d div 64 * 64 + d mod 64) * 64"
    by (rule sym)
  also have "\<dots> = d * 64"
    by (simp only: div_mult_mod_eq)
  finally have "d div 64 * 4096 + d mod 64 * 64 + c mod 64 = d * 64 + c mod 64"
    by simp
  also have "\<dots> = c"
    unfolding d_def by (rule div_mult_mod_eq)
  finally show ?thesis
    unfolding top d_def .
qed

lemma four_parts:
  fixes c :: nat
  shows "c div 262144 * 262144 + c div 4096 mod 64 * 4096 + c div 64 mod 64 * 64 + c mod 64 = c"
proof -
  define e where "e = c div 4096"
  have top: "c div 262144 = e div 64"
    unfolding e_def using div_mult2_eq[of c 4096 64] by simp
  have "(a * 64 + b) * 4096 = a * 262144 + b * 4096" for a b :: nat
    by (simp add: algebra_simps)
  then have "e div 64 * 262144 + e mod 64 * 4096 = (e div 64 * 64 + e mod 64) * 4096"
    by (rule sym)
  also have "\<dots> = e * 4096"
    by (simp only: div_mult_mod_eq)
  finally have "e div 64 * 262144 + e mod 64 * 4096 + c div 64 mod 64 * 64 + c mod 64
      = e * 4096 + c div 64 mod 64 * 64 + c mod 64"
    by simp
  also have "\<dots> = c"
    unfolding e_def by (rule three_parts)
  finally show ?thesis
    unfolding top e_def .
qed

lemma second_octet_after_ED:
  fixes c :: nat
  assumes "\<not> (0xD800 \<le> c \<and> c \<le> 0xDFFF)" and "c div 4096 = 13"
  shows "c div 64 mod 64 \<le> 31"
proof -
  have "13 * 4096 \<le> c" and "c < 13 * 4096 + 4096"
    using div_window[OF assms(2)] by simp_all
  then have "c < 0xD800"
    using assms(1) by simp
  then have up: "c div 64 < 864"
    by simp
  have lo: "832 \<le> c div 64"
    using \<open>13 * 4096 \<le> c\<close> by simp
  have "c div 64 mod 64 = c div 64 - 13 * 64"
    using lo up by (intro mod_window) simp_all
  then show ?thesis
    using up by simp
qed

lemma second_octet_after_E0:
  fixes c :: nat
  assumes "0x800 \<le> c" and "c div 4096 = 0"
  shows "32 \<le> c div 64 mod 64"
proof -
  have "c < 4096"
    using div_window[OF assms(2)] by simp
  then have "c div 64 < 64"
    by simp
  then have "c div 64 mod 64 = c div 64"
    by simp
  moreover have "32 \<le> c div 64"
    using assms(1) by simp
  ultimately show ?thesis by simp
qed

lemma second_octet_after_F0:
  fixes c :: nat
  assumes "0x10000 \<le> c" and "c div 262144 = 0"
  shows "16 \<le> c div 4096 mod 64"
proof -
  have "c < 262144"
    using div_window[OF assms(2)] by simp
  then have "c div 4096 < 64"
    by simp
  then have "c div 4096 mod 64 = c div 4096"
    by simp
  moreover have "16 \<le> c div 4096"
    using assms(1) by simp
  ultimately show ?thesis by simp
qed

lemma second_octet_after_F4:
  fixes c :: nat
  assumes "c < 0x110000" and "c div 262144 = 4"
  shows "c div 4096 mod 64 \<le> 15"
proof -
  have lo: "4 * 262144 \<le> c"
    using div_window[OF assms(2)] by simp
  have up: "c div 4096 < 272"
    using assms(1) by simp
  have lo': "256 \<le> c div 4096"
    using lo by simp
  have "c div 4096 mod 64 = c div 4096 - 4 * 64"
    using lo' up by (intro mod_window) simp_all
  then show ?thesis
    using up by simp
qed
lemma decode_three_octets:
  assumes "0xE0 \<le> b0" and "b0 \<le> 0xEF" and "continuation b1" and "continuation b2"
    and "b0 = 0xE0 \<longrightarrow> 0xA0 \<le> b1" and "b0 = 0xED \<longrightarrow> b1 \<le> 0x9F"
  shows "decode_octets (b0 # b1 # b2 # rest)
           = prepend ((b0 - 0xE0) * 4096 + (b1 - 0x80) * 64 + (b2 - 0x80)) (decode_octets rest)"
  using assms by simp

lemma decode_four_octets:
  assumes "0xF0 \<le> b0" and "b0 \<le> 0xF4"
    and "continuation b1" and "continuation b2" and "continuation b3"
    and "b0 = 0xF0 \<longrightarrow> 0x90 \<le> b1" and "b0 = 0xF4 \<longrightarrow> b1 \<le> 0x8F"
  shows "decode_octets (b0 # b1 # b2 # b3 # rest)
           = prepend ((b0 - 0xF0) * 262144 + (b1 - 0x80) * 4096 + (b2 - 0x80) * 64 + (b3 - 0x80))
               (decode_octets rest)"
  using assms by simp

lemma continuation_low_bits: "continuation (0x80 + n mod 64)"
  by (simp add: continuation_def)

lemma decode_three:
  assumes "0x800 \<le> c" and "c < 0x10000" and "\<not> (0xD800 \<le> c \<and> c \<le> 0xDFFF)"
  shows "decode_octets ((0xE0 + c div 4096) # (0x80 + c div 64 mod 64) # (0x80 + c mod 64) # rest)
           = prepend c (decode_octets rest)"
proof -
  have lead: "0xE0 \<le> 0xE0 + c div 4096" "0xE0 + c div 4096 \<le> 0xEF"
    using assms(2) by simp_all
  have low: "0xE0 + c div 4096 = 0xE0 \<longrightarrow> 0xA0 \<le> 0x80 + c div 64 mod 64"
    using second_octet_after_E0[OF assms(1)] by auto
  have high: "0xE0 + c div 4096 = 0xED \<longrightarrow> 0x80 + c div 64 mod 64 \<le> 0x9F"
    using second_octet_after_ED[OF assms(3)] by auto
  have val: "(0xE0 + c div 4096 - 0xE0) * 4096 + (0x80 + c div 64 mod 64 - 0x80) * 64
       + (0x80 + c mod 64 - 0x80) = c"
    by (simp only: add_diff_cancel_left' three_parts)
  show ?thesis
    using decode_three_octets[OF lead continuation_low_bits continuation_low_bits low high,
        where rest = rest]
    by (simp only: val)
qed

lemma decode_four:
  assumes "0x10000 \<le> c" and "c < 0x110000"
  shows "decode_octets ((0xF0 + c div 262144) # (0x80 + c div 4096 mod 64)
            # (0x80 + c div 64 mod 64) # (0x80 + c mod 64) # rest)
           = prepend c (decode_octets rest)"
proof -
  have lead: "0xF0 \<le> 0xF0 + c div 262144" "0xF0 + c div 262144 \<le> 0xF4"
    using assms(2) by simp_all
  have low: "0xF0 + c div 262144 = 0xF0 \<longrightarrow> 0x90 \<le> 0x80 + c div 4096 mod 64"
    using second_octet_after_F0[OF assms(1)] by auto
  have high: "0xF0 + c div 262144 = 0xF4 \<longrightarrow> 0x80 + c div 4096 mod 64 \<le> 0x8F"
    using second_octet_after_F4[OF assms(2)] by auto
  have val: "(0xF0 + c div 262144 - 0xF0) * 262144 + (0x80 + c div 4096 mod 64 - 0x80) * 4096
       + (0x80 + c div 64 mod 64 - 0x80) * 64 + (0x80 + c mod 64 - 0x80) = c"
    by (simp only: add_diff_cancel_left' four_parts)
  show ?thesis
    using decode_four_octets[OF lead continuation_low_bits continuation_low_bits
        continuation_low_bits low high, where rest = rest]
    by (simp only: val)
qed

lemma decode_encode_codepoint:
  assumes "encode_codepoint c = Inr bs"
  shows "decode_octets (map unat bs @ rest) = prepend c (decode_octets rest)"
proof -
  consider "c < 0x80" | "0x80 \<le> c" "c < 0x800"
    | "0x800 \<le> c" "c < 0x10000" "\<not> (0xD800 \<le> c \<and> c \<le> 0xDFFF)"
    | "0x10000 \<le> c" "c < 0x110000"
    using assms by (auto simp: encode_codepoint_def split: if_splits)
  then show ?thesis
  proof cases
    case 1
    then have "bs = [of_nat c]"
      using assms by (simp add: encode_codepoint_def)
    moreover have "c < 256"
      using 1 by simp
    ultimately have "map unat bs = [c]"
      by (simp only: list.map unat_octet)
    then show ?thesis
      by (simp only: append_Cons append_Nil decode_one[OF 1])
  next
    case 2
    then have "bs = [of_nat (0xC0 + c div 64), of_nat (0x80 + c mod 64)]"
      using assms by (simp add: encode_codepoint_def)
    moreover have "0xC0 + c div 64 < 256" "0x80 + c mod 64 < 256"
      using 2 by simp_all
    ultimately have "map unat bs = [0xC0 + c div 64, 0x80 + c mod 64]"
      by (simp only: list.map unat_octet)
    then show ?thesis
      by (simp only: append_Cons append_Nil decode_two[OF 2])
  next
    case 3
    then have "bs = [of_nat (0xE0 + c div 4096), of_nat (0x80 + (c div 64) mod 64),
             of_nat (0x80 + c mod 64)]"
      using assms by (auto simp: encode_codepoint_def split: if_splits)
    moreover have "0xE0 + c div 4096 < 256" "0x80 + (c div 64) mod 64 < 256"
        "0x80 + c mod 64 < 256"
      using 3 by simp_all
    ultimately have "map unat bs
        = [0xE0 + c div 4096, 0x80 + (c div 64) mod 64, 0x80 + c mod 64]"
      by (simp only: list.map unat_octet)
    then show ?thesis
      by (simp only: append_Cons append_Nil decode_three[OF 3])
  next
    case 4
    then have "bs = [of_nat (0xF0 + c div 262144), of_nat (0x80 + (c div 4096) mod 64),
             of_nat (0x80 + (c div 64) mod 64), of_nat (0x80 + c mod 64)]"
      using assms by (auto simp: encode_codepoint_def split: if_splits)
    moreover have "0xF0 + c div 262144 < 256" "0x80 + (c div 4096) mod 64 < 256"
        "0x80 + (c div 64) mod 64 < 256" "0x80 + c mod 64 < 256"
      using 4 by simp_all
    ultimately have "map unat bs
        = [0xF0 + c div 262144, 0x80 + (c div 4096) mod 64, 0x80 + (c div 64) mod 64,
           0x80 + c mod 64]"
      by (simp only: list.map unat_octet)
    then show ?thesis
      by (simp only: append_Cons append_Nil decode_four[OF 4])
  qed
qed

lemma decode_encode_utf8: "encode_utf8 s = Inr bs \<Longrightarrow> decode_utf8 bs = Inr s"
proof (induction s arbitrary: bs)
  case Nil
  then show ?case by (simp add: decode_utf8_def)
next
  case (Cons c cs)
  then obtain b r where b: "encode_codepoint c = Inr b" and r: "encode_utf8 cs = Inr r"
    and bs: "bs = b @ r"
    by (auto split: sum.splits)
  have "decode_octets (map unat b @ map unat r) = prepend c (decode_octets (map unat r))"
    using b by (rule decode_encode_codepoint)
  moreover have "decode_octets (map unat r) = Inr cs"
    using Cons.IH[OF r] by (simp add: decode_utf8_def)
  ultimately show ?case by (simp add: decode_utf8_def bs prepend_def)
qed

section \<open>The formatter adapter\<close>

text \<open>
  A formatter made by the decorator, called with text as \<^verbatim>\<open>LogBuffer.__call__\<close> calls it,
  returns: it formats every line of the message.
\<close>

lemma formatter_text: "formatter fn (Text m) = Inr (join newline (map fn (split_on 10 m)))"
  by (simp add: formatter_def format_message_def)

text \<open>
  C10. \<^verbatim>\<open>format_message\<close> leaves text as it is and decodes bytes as UTF-8 (a decoding error is
  the result; the bytes that encode a text are treated as that text), splits the text at
  every newline into lines that hold no newline, applies the per-line function to each line
  and joins the results with newline. Splitting and joining with newline is a round trip, so
  with the identity as per-line function every text comes back unchanged.
\<close>

theorem format_message_pipeline:
  "format_message (Text s) fn = Inr (join newline (map fn (split_on 10 s)))
   \<and> format_message (Raw bs) fn =
       (case decode_utf8 bs of
          Inl e \<Rightarrow> Inl e
        | Inr s' \<Rightarrow> Inr (join newline (map fn (split_on 10 s'))))
   \<and> (encode_utf8 s = Inr bs' \<longrightarrow> format_message (Raw bs') fn = format_message (Text s) fn)
   \<and> 10 \<notin> set (concat (split_on 10 s))
   \<and> join newline (split_on 10 s) = s
   \<and> format_message (Text s) (\<lambda>line. line) = Inr s"
  using join_split_on[of 10 s] split_on_lines[of _ 10 s] decode_encode_utf8[of s bs']
  by (auto simp: format_message_def newline_def)

text \<open>The witness: the text \<^verbatim>\<open>'a\n\u00e9'\<close> and its four bytes.\<close>

theorem format_message_pipeline_witness:
  "encode_utf8 [97, 10, 233] = Inr [0x61, 0x0A, 0xC3, 0xA9]
   \<and> format_message (Raw [0x61, 0x0A, 0xC3, 0xA9]) (\<lambda>line. line) = Inr [97, 10, 233]
   \<and> format_message (Text [97, 10, 233]) (\<lambda>line. line) = Inr [97, 10, 233]
   \<and> split_on 10 [97, 10, 233] = [[97], [233]]"
proof -
  have enc: "encode_utf8 [97, 10, 233] = Inr [0x61, 0x0A, 0xC3, 0xA9]"
    by (simp add: encode_codepoint_def)
  show ?thesis
    using format_message_pipeline[of "[97, 10, 233]" "\<lambda>line. line" "[]"
        "[0x61, 0x0A, 0xC3, 0xA9]"] enc
    by simp
qed

section \<open>Single operations of the buffer\<close>

text \<open>
  C9. When nothing is pending, \<^verbatim>\<open>flush\<close> of either class returns at once: the sink is not
  invoked and the object is the same as before.
\<close>

theorem flush_empty_noop:
  "(buf_buffer s = [] \<longrightarrow>
      LogBuffer_flush s = (Returned, s)
      \<and> sink_calls (snd (LogBuffer_flush s)) = sink_calls s)
   \<and> (buf_buffer t = [] \<longrightarrow>
      MaxSizeLogBuffer_flush t = (Returned, t)
      \<and> sink_calls (snd (MaxSizeLogBuffer_flush t)) = sink_calls t)"
  by (simp add: LogBuffer_flush_def MaxSizeLogBuffer_flush_def)

theorem flush_empty_noop_witness:
  "buf_buffer (LogBuffer_init (\<lambda>h b. None) None) = []
   \<and> LogBuffer_flush (LogBuffer_init (\<lambda>h b. None) None)
       = (Returned, LogBuffer_init (\<lambda>h b. None) None)
   \<and> buf_buffer (MaxSizeLogBuffer_init (\<lambda>h b. None) (1 / 5) 120 None) = []
   \<and> MaxSizeLogBuffer_flush (MaxSizeLogBuffer_init (\<lambda>h b. None) (1 / 5) 120 None)
       = (Returned, MaxSizeLogBuffer_init (\<lambda>h b. None) (1 / 5) 120 None)"
  using flush_empty_noop[of "LogBuffer_init (\<lambda>h b. None) None"
      "MaxSizeLogBuffer_init (\<lambda>h b. None) (1 / 5) 120 None"]
  by (simp add: LogBuffer_init_def MaxSizeLogBuffer_init_def)

text \<open>
  C3. On a closed buffer \<^verbatim>\<open>__call__\<close> of either class raises \<^verbatim>\<open>BufferClosedError\<close> and
  leaves the object as it was: the pending messages, and in \<^verbatim>\<open>MaxSizeLogBuffer\<close> the size
  counter, are unchanged.
\<close>

theorem call_closed:
  "(\<not> buf_open s \<longrightarrow>
      LogBuffer_call s message = (Raised BufferClosedError, s))
   \<and> (\<not> buf_open t \<longrightarrow>
      MaxSizeLogBuffer_call t message = (Raised BufferClosedError, t)
      \<and> buf_buffer (snd (MaxSizeLogBuffer_call t message)) = buf_buffer t
      \<and> buf_size (snd (MaxSizeLogBuffer_call t message)) = buf_size t)"
  by (simp add: LogBuffer_call_def MaxSizeLogBuffer_call_def)

theorem call_closed_witness:
  "\<not> buf_open (snd (LogBuffer_close (LogBuffer_init (\<lambda>h b. None) None)))
   \<and> fst (LogBuffer_call (snd (LogBuffer_close (LogBuffer_init (\<lambda>h b. None) None)))
            (literal ''a'')) = Raised BufferClosedError
   \<and> \<not> buf_open (snd (LogBuffer_close (MaxSizeLogBuffer_init (\<lambda>h b. None) (1 / 5) 120 None)))
   \<and> fst (MaxSizeLogBuffer_call
            (snd (LogBuffer_close (MaxSizeLogBuffer_init (\<lambda>h b. None) (1 / 5) 120 None)))
            (literal ''a'')) = Raised BufferClosedError"
  using call_closed[of "snd (LogBuffer_close (LogBuffer_init (\<lambda>h b. None) None))"
      "literal ''a''"
      "snd (LogBuffer_close (MaxSizeLogBuffer_init (\<lambda>h b. None) (1 / 5) 120 None))"]
  by (simp add: LogBuffer_close_def LogBuffer_init_def MaxSizeLogBuffer_init_def)

lemma apply_formatter_update [simp]:
  "apply_formatter (s\<lparr>buf_buffer := b\<rparr>) = apply_formatter s"
  "apply_formatter (s\<lparr>sink_calls := c\<rparr>) = apply_formatter s"
  "apply_formatter (s\<lparr>buf_open := d\<rparr>) = apply_formatter s"
  by (simp_all add: apply_formatter_def fun_eq_iff)

lemma apply_formatter_update_max [simp]:
  "apply_formatter (t\<lparr>buf_size := n\<rparr>) = apply_formatter (t :: max_size_log_buffer)"
  "apply_formatter (t\<lparr>SizeExceeded := x\<rparr>) = apply_formatter t"
  by (simp_all add: apply_formatter_def fun_eq_iff)

text \<open>
  C8. When the sink raises, \<^verbatim>\<open>flush\<close> of either class raises the same error and the object
  is as before (only the sink has seen one more call): the pending messages, and in
  \<^verbatim>\<open>MaxSizeLogBuffer\<close> the size counter and the event, are unchanged. A second \<^verbatim>\<open>flush\<close>
  invokes the sink with the same batch again and, if the sink now returns, drains the buffer.
\<close>

theorem flush_sink_raises:
  "(buf_buffer s \<noteq> [] \<and> buf_fn s (sink_calls s) (join newline (buf_buffer s)) = Some e \<longrightarrow>
      LogBuffer_flush s
        = (Raised e, s\<lparr>sink_calls := sink_calls s @ [join newline (buf_buffer s)]\<rparr>)
      \<and> buf_buffer (snd (LogBuffer_flush s)) = buf_buffer s
      \<and> (buf_fn s (sink_calls s @ [join newline (buf_buffer s)]) (join newline (buf_buffer s))
            = None \<longrightarrow>
           LogBuffer_flush (snd (LogBuffer_flush s))
             = (Returned,
                s\<lparr>buf_buffer := [],
                  sink_calls := sink_calls s
                    @ [join newline (buf_buffer s), join newline (buf_buffer s)]\<rparr>)))
   \<and> (buf_buffer t \<noteq> [] \<and> buf_fn t (sink_calls t) (join newline (buf_buffer t)) = Some e' \<longrightarrow>
      MaxSizeLogBuffer_flush t
        = (Raised e', t\<lparr>sink_calls := sink_calls t @ [join newline (buf_buffer t)]\<rparr>)
      \<and> buf_buffer (snd (MaxSizeLogBuffer_flush t)) = buf_buffer t
      \<and> buf_size (snd (MaxSizeLogBuffer_flush t)) = buf_size t
      \<and> SizeExceeded (snd (MaxSizeLogBuffer_flush t)) = SizeExceeded t
      \<and> (buf_fn t (sink_calls t @ [join newline (buf_buffer t)]) (join newline (buf_buffer t))
            = None \<longrightarrow>
           MaxSizeLogBuffer_flush (snd (MaxSizeLogBuffer_flush t))
             = (Returned,
                t\<lparr>buf_buffer := [], buf_size := 0, SizeExceeded := False,
                  sink_calls := sink_calls t
                    @ [join newline (buf_buffer t), join newline (buf_buffer t)]\<rparr>)))"
  by (simp add: LogBuffer_flush_def MaxSizeLogBuffer_flush_def call_sink_def)

text \<open>
  The witness: a sink that raises on its first call and returns afterwards, and a buffer
  holding one message.
\<close>

theorem flush_sink_raises_witness:
  "fst (LogBuffer_flush
         ((LogBuffer_init (\<lambda>h b. if h = [] then Some (OtherError ''down'') else None) None)
            \<lparr>buf_buffer := [[97]]\<rparr>)) = Raised (OtherError ''down'')
   \<and> buf_buffer (snd (LogBuffer_flush
         ((LogBuffer_init (\<lambda>h b. if h = [] then Some (OtherError ''down'') else None) None)
            \<lparr>buf_buffer := [[97]]\<rparr>))) = [[97]]
   \<and> sink_calls (snd (LogBuffer_flush (snd (LogBuffer_flush
         ((LogBuffer_init (\<lambda>h b. if h = [] then Some (OtherError ''down'') else None) None)
            \<lparr>buf_buffer := [[97]]\<rparr>))))) = [[97], [97]]
   \<and> fst (MaxSizeLogBuffer_flush
         ((MaxSizeLogBuffer_init (\<lambda>h b. if h = [] then Some (OtherError ''down'') else None)
             (1 / 5) 120 None)
            \<lparr>buf_buffer := [[97]], buf_size := 1\<rparr>)) = Raised (OtherError ''down'')
   \<and> buf_size (snd (MaxSizeLogBuffer_flush
         ((MaxSizeLogBuffer_init (\<lambda>h b. if h = [] then Some (OtherError ''down'') else None)
             (1 / 5) 120 None)
            \<lparr>buf_buffer := [[97]], buf_size := 1\<rparr>))) = 1"
  using flush_sink_raises[of
      "(LogBuffer_init (\<lambda>h b. if h = [] then Some (OtherError ''down'') else None) None)
         \<lparr>buf_buffer := [[97]]\<rparr>"
      "OtherError ''down''"
      "(MaxSizeLogBuffer_init (\<lambda>h b. if h = [] then Some (OtherError ''down'') else None)
          (1 / 5) 120 None)
         \<lparr>buf_buffer := [[97]], buf_size := 1\<rparr>"
      "OtherError ''down''"]
  by (simp add: LogBuffer_init_def MaxSizeLogBuffer_init_def LogBuffer_flush_def
        MaxSizeLogBuffer_flush_def call_sink_def)

section \<open>Appending and then flushing\<close>

lemma LogBuffer_appends:
  "buf_open s \<Longrightarrow>
   LogBuffer_requests (map Append msgs) s
     = s\<lparr>buf_buffer := buf_buffer s @ map (apply_formatter s) msgs\<rparr>"
proof (induction msgs arbitrary: s)
  case Nil
  show ?case by simp
next
  case (Cons m msgs)
  have "LogBuffer_requests (map Append (m # msgs)) s
      = LogBuffer_requests (map Append msgs)
          (s\<lparr>buf_buffer := buf_buffer s @ [apply_formatter s m]\<rparr>)"
    using Cons.prems by (simp add: LogBuffer_request_def LogBuffer_call_def)
  also have "\<dots> = s\<lparr>buf_buffer := buf_buffer s @ map (apply_formatter s) (m # msgs)\<rparr>"
    using Cons.prems by (subst Cons.IH) simp_all
  finally show ?case .
qed

text \<open>
  C1. On an open buffer with nothing pending, after \<^verbatim>\<open>__call__\<close> with the messages
  \<open>A\<^sub>1 \<dots> A\<^sub>n\<close> (\<open>n \<ge> 1\<close>) a \<^verbatim>\<open>flush\<close> whose sink call returns invokes the sink exactly once,
  with the messages joined by newline in the order of the calls, and leaves nothing pending.
  The messages are joined as \<^verbatim>\<open>__call__\<close> stores them: as passed when no formatter is
  configured, as the formatter returns them otherwise.
\<close>

theorem flush_delivers_appends:
  assumes "buf_open s" and "buf_buffer s = []" and "msgs \<noteq> []"
    and "buf_fn s (sink_calls s) (join newline (map (apply_formatter s) msgs)) = None"
  shows "LogBuffer_flush (LogBuffer_requests (map Append msgs) s)
           = (Returned,
              s\<lparr>buf_buffer := [],
                sink_calls := sink_calls s @ [join newline (map (apply_formatter s) msgs)]\<rparr>)"
  using assms by (simp add: LogBuffer_appends LogBuffer_flush_def call_sink_def)

theorem flush_delivers_appends_witness:
  "sink_calls (snd (LogBuffer_flush (LogBuffer_requests
       (map Append [literal ''a'', literal ''b'']) (LogBuffer_init (\<lambda>h b. None) None))))
     = [[97, 10, 98]]
   \<and> buf_buffer (snd (LogBuffer_flush (LogBuffer_requests
       (map Append [literal ''a'', literal ''b'']) (LogBuffer_init (\<lambda>h b. None) None)))) = []"
  using flush_delivers_appends[of "LogBuffer_init (\<lambda>h b. None) None"
      "[literal ''a'', literal ''b'']"]
  by (simp add: LogBuffer_init_def apply_formatter_def literal_def newline_def)

section \<open>The size counter and the event\<close>

lemma encoded_size_nonneg: "0 \<le> encoded_size m"
  by (simp add: encoded_size_def split: sum.splits)

lemma sum_encoded_size_nonneg: "0 \<le> sum_list (map encoded_size ms)"
  by (induction ms) (auto simp: encoded_size_nonneg)

lemma drained_clean_init: "drained_clean (MaxSizeLogBuffer_init fn t m fmt)"
  by (simp add: drained_clean_def MaxSizeLogBuffer_init_def)

lemma drained_clean_request:
  "drained_clean s \<Longrightarrow> drained_clean (snd (MaxSizeLogBuffer_request r s))"
  by (cases r)
     (auto simp: drained_clean_def MaxSizeLogBuffer_request_def MaxSizeLogBuffer_call_def
        MaxSizeLogBuffer_flush_def LogBuffer_close_def call_sink_def Let_def
        split: sum.splits option.splits)

lemma drained_clean_requests:
  "drained_clean s \<Longrightarrow> drained_clean (MaxSizeLogBuffer_requests rs s)"
  by (induction rs arbitrary: s) (auto simp: drained_clean_request)

text \<open>
  C5. Let \<open>s\<close> be any state a \<^verbatim>\<open>MaxSizeLogBuffer\<close> reaches from its construction by calls of its
  methods (the flush loop changes the object through these calls only). When \<^verbatim>\<open>flush\<close>
  returns from \<open>s\<close>, whether it delivered a batch or found nothing pending, the size counter
  is 0 and the event is clear. A flush that returns with something pending drains the
  buffer; and a method call that finds the event set and leaves it clear is such a flush.
\<close>

theorem flush_resets_size_and_signal:
  assumes "s = MaxSizeLogBuffer_requests rs (MaxSizeLogBuffer_init fn t m fmt)"
  shows "(fst (MaxSizeLogBuffer_flush s) = Returned \<longrightarrow>
            buf_size (snd (MaxSizeLogBuffer_flush s)) = 0
            \<and> \<not> SizeExceeded (snd (MaxSizeLogBuffer_flush s)))
         \<and> (buf_buffer s \<noteq> [] \<and> fst (MaxSizeLogBuffer_flush s) = Returned \<longrightarrow>
            buf_buffer (snd (MaxSizeLogBuffer_flush s)) = [])
         \<and> (SizeExceeded s \<and> \<not> SizeExceeded (snd (MaxSizeLogBuffer_request r s)) \<longrightarrow>
            r = Flush \<and> buf_buffer s \<noteq> []
            \<and> fst (MaxSizeLogBuffer_request r s) = Returned
            \<and> buf_buffer (snd (MaxSizeLogBuffer_request r s)) = [])"
proof -
  have clean: "drained_clean s"
    using assms drained_clean_init drained_clean_requests by simp
  have a: "fst (MaxSizeLogBuffer_flush s) = Returned \<longrightarrow>
            buf_size (snd (MaxSizeLogBuffer_flush s)) = 0
            \<and> \<not> SizeExceeded (snd (MaxSizeLogBuffer_flush s))"
    using clean
    by (auto simp: drained_clean_def MaxSizeLogBuffer_flush_def call_sink_def
          split: option.splits)
  have b: "buf_buffer s \<noteq> [] \<and> fst (MaxSizeLogBuffer_flush s) = Returned \<longrightarrow>
            buf_buffer (snd (MaxSizeLogBuffer_flush s)) = []"
    by (auto simp: MaxSizeLogBuffer_flush_def call_sink_def split: option.splits)
  have c: "SizeExceeded s \<and> \<not> SizeExceeded (snd (MaxSizeLogBuffer_request r s)) \<longrightarrow>
            r = Flush \<and> buf_buffer s \<noteq> []
            \<and> fst (MaxSizeLogBuffer_request r s) = Returned
            \<and> buf_buffer (snd (MaxSizeLogBuffer_request r s)) = []"
    by (cases r)
       (auto simp: MaxSizeLogBuffer_request_def MaxSizeLogBuffer_call_def
          MaxSizeLogBuffer_flush_def LogBuffer_close_def call_sink_def Let_def
          split: sum.splits option.splits if_splits)
  from a b c show ?thesis by blast
qed

text \<open>
  The witness: a buffer with \<^verbatim>\<open>max_size\<close> 10 after one message of 12 bytes; the event is
  set, and the flush clears it.
\<close>

theorem flush_resets_size_and_signal_witness:
  "SizeExceeded (MaxSizeLogBuffer_requests [Append (literal ''0123456789ab'')]
       (MaxSizeLogBuffer_init (\<lambda>h b. None) (1 / 5) 10 None))
   \<and> buf_size (MaxSizeLogBuffer_requests [Append (literal ''0123456789ab'')]
       (MaxSizeLogBuffer_init (\<lambda>h b. None) (1 / 5) 10 None)) = 12
   \<and> fst (MaxSizeLogBuffer_flush (MaxSizeLogBuffer_requests [Append (literal ''0123456789ab'')]
       (MaxSizeLogBuffer_init (\<lambda>h b. None) (1 / 5) 10 None))) = Returned
   \<and> buf_size (snd (MaxSizeLogBuffer_flush
       (MaxSizeLogBuffer_requests [Append (literal ''0123456789ab'')]
         (MaxSizeLogBuffer_init (\<lambda>h b. None) (1 / 5) 10 None)))) = 0
   \<and> \<not> SizeExceeded (snd (MaxSizeLogBuffer_flush
       (MaxSizeLogBuffer_requests [Append (literal ''0123456789ab'')]
         (MaxSizeLogBuffer_init (\<lambda>h b. None) (1 / 5) 10 None))))"
  using flush_resets_size_and_signal[of
      "MaxSizeLogBuffer_requests [Append (literal ''0123456789ab'')]
         (MaxSizeLogBuffer_init (\<lambda>h b. None) (1 / 5) 10 None)"
      "[Append (literal ''0123456789ab'')]" "\<lambda>h b. None" "1 / 5" 10 None Flush]
  by (simp add: MaxSizeLogBuffer_init_def MaxSizeLogBuffer_request_def
        MaxSizeLogBuffer_call_def MaxSizeLogBuffer_flush_def call_sink_def apply_formatter_def
        literal_def encode_codepoint_def)

lemma size_tracks_init: "size_tracks (MaxSizeLogBuffer_init fn t m fmt)"
  by (simp add: size_tracks_def MaxSizeLogBuffer_init_def)

lemma size_tracks_nonneg: "size_tracks s \<Longrightarrow> 0 \<le> buf_size s"
  by (simp add: size_tracks_def sum_encoded_size_nonneg)

lemma size_tracks_call:
  "size_tracks s \<Longrightarrow> encodable (apply_formatter s message) \<Longrightarrow>
   size_tracks (snd (MaxSizeLogBuffer_call s message))"
  by (auto simp: size_tracks_def MaxSizeLogBuffer_call_def Let_def encodable_def
        encoded_size_def split: sum.splits)

lemma size_tracks_flush: "size_tracks s \<Longrightarrow> size_tracks (snd (MaxSizeLogBuffer_flush s))"
  by (auto simp: size_tracks_def MaxSizeLogBuffer_flush_def call_sink_def split: option.splits)

lemma size_tracks_close: "size_tracks s \<Longrightarrow> size_tracks (snd (LogBuffer_close s))"
  by (simp add: size_tracks_def LogBuffer_close_def)

lemma call_unencodable:
  assumes "buf_open s" and "\<not> encodable (apply_formatter s message)"
  shows "MaxSizeLogBuffer_call s message
           = (Raised UnicodeEncodeError,
              s\<lparr>buf_buffer := buf_buffer s @ [apply_formatter s message]\<rparr>)"
proof -
  have "encode_utf8 m = Inl e \<Longrightarrow> e = UnicodeEncodeError" for m e
    by (induction m arbitrary: e)
       (auto simp: encode_codepoint_def split: if_splits sum.splits)
  then show ?thesis
    using assms
    by (auto simp: MaxSizeLogBuffer_call_def Let_def encodable_def split: sum.splits)
qed

text \<open>
  C4. The counter tracks the pending messages after construction, and \<^verbatim>\<open>flush\<close>, \<^verbatim>\<open>close\<close>
  and \<^verbatim>\<open>__call__\<close> with an encodable message keep it so (\<open>size_tracks_init\<close>,
  \<open>size_tracks_flush\<close>, \<open>size_tracks_close\<close>, \<open>size_tracks_call\<close>), and then the counter is
  not negative (\<open>size_tracks_nonneg\<close>). \<^verbatim>\<open>__call__\<close> with a message that has no UTF-8
  encoding breaks it (\<open>call_unencodable\<close>): line 105 has stored the message when line 106
  raises \<^verbatim>\<open>UnicodeEncodeError\<close>, so the message is pending and the counter has not moved.
  Below, the message is the lone surrogate \<^verbatim>\<open>'\ud800'\<close> and the buffer is new.
\<close>

theorem call_unencodable_loses_track:
  "MaxSizeLogBuffer_call (MaxSizeLogBuffer_init (\<lambda>h b. None) (1 / 5) 120 None) [0xD800]
     = (Raised UnicodeEncodeError,
        (MaxSizeLogBuffer_init (\<lambda>h b. None) (1 / 5) 120 None)\<lparr>buf_buffer := [[0xD800]]\<rparr>)
   \<and> buf_size (snd (MaxSizeLogBuffer_call
        (MaxSizeLogBuffer_init (\<lambda>h b. None) (1 / 5) 120 None) [0xD800])) = 0
   \<and> encode_utf8 [0xD800] = Inl UnicodeEncodeError
   \<and> size_tracks (MaxSizeLogBuffer_init (\<lambda>h b. None) (1 / 5) 120 None)
   \<and> \<not> size_tracks (snd (MaxSizeLogBuffer_call
        (MaxSizeLogBuffer_init (\<lambda>h b. None) (1 / 5) 120 None) [0xD800]))"
  by (simp add: MaxSizeLogBuffer_call_def MaxSizeLogBuffer_init_def apply_formatter_def
        encode_codepoint_def size_tracks_def encodable_def)

section \<open>The flush loops\<close>

subsection \<open>\<^verbatim>\<open>TimedLogBuffer.flush_loop\<close>\<close>

lemma LogBuffer_request_fn: "buf_fn (snd (LogBuffer_request r s)) = buf_fn s"
  by (cases r)
     (auto simp: LogBuffer_request_def LogBuffer_call_def LogBuffer_flush_def
        LogBuffer_close_def call_sink_def Let_def split: option.splits)

lemma LogBuffer_requests_fn: "buf_fn (LogBuffer_requests rs s) = buf_fn s"
  by (induction rs arbitrary: s) (auto simp: LogBuffer_request_fn)

lemma LogBuffer_request_stays_closed:
  "\<not> buf_open s \<Longrightarrow> \<not> buf_open (snd (LogBuffer_request r s))"
  by (cases r)
     (auto simp: LogBuffer_request_def LogBuffer_call_def LogBuffer_flush_def
        LogBuffer_close_def call_sink_def Let_def split: option.splits)

lemma LogBuffer_requests_stays_closed:
  "\<not> buf_open s \<Longrightarrow> \<not> buf_open (LogBuffer_requests rs s)"
  by (induction rs arbitrary: s) (auto simp: LogBuffer_request_stays_closed)

lemma LogBuffer_requests_close:
  "Close \<in> set rs \<Longrightarrow> \<not> buf_open (LogBuffer_requests rs s)"
proof (induction rs arbitrary: s)
  case Nil
  then show ?case by simp
next
  case (Cons r rs)
  show ?case
  proof (cases "r = Close")
    case True
    then have "\<not> buf_open (snd (LogBuffer_request r s))"
      by (simp add: LogBuffer_request_def LogBuffer_close_def)
    then show ?thesis by (simp add: LogBuffer_requests_stays_closed)
  next
    case False
    then show ?thesis using Cons by simp
  qed
qed

lemma LogBuffer_flush_quiet_sink:
  "\<forall>h b. buf_fn s h b = None \<Longrightarrow>
   LogBuffer_flush s
     = (Returned,
        if buf_buffer s = [] then s
        else s\<lparr>sink_calls := sink_calls s @ [join newline (buf_buffer s)], buf_buffer := []\<rparr>)"
  by (simp add: LogBuffer_flush_def call_sink_def)

lemma timed_loop_closed:
  "\<not> buf_open s \<Longrightarrow>
   TimedLogBuffer_flush_loop sched s = (Some (fst (LogBuffer_flush s)), snd (LogBuffer_flush s))"
  by (cases sched) (auto split: prod.splits)

lemma timed_loop_returned:
  "TimedLogBuffer_flush_loop sched s = (Some Returned, s') \<Longrightarrow>
   buf_buffer s' = [] \<and> \<not> buf_open s'"
proof (induction sched arbitrary: s)
  case Nil
  then show ?case
    by (auto simp: LogBuffer_flush_def call_sink_def split: if_splits prod.splits outcome.splits option.splits)
next
  case (Cons others rest)
  show ?case
  proof (cases "buf_open s")
    case False
    then show ?thesis using Cons.prems
      by (auto simp: LogBuffer_flush_def call_sink_def split: if_splits prod.splits option.splits)
  next
    case True
    then obtain s1 where "LogBuffer_flush s = (Returned, s1)"
      and "TimedLogBuffer_flush_loop rest (LogBuffer_requests others s1) = (Some Returned, s')"
      using Cons.prems by (auto split: prod.splits outcome.splits)
    then show ?thesis using Cons.IH by blast
  qed
qed

lemma timed_loop_finishes:
  assumes "\<forall>h b. buf_fn s h b = None"
    and "\<not> buf_open s \<or> Close \<in> set (concat sched)"
  shows "\<exists>s'. TimedLogBuffer_flush_loop sched s = (Some Returned, s')"
  using assms
proof (induction sched arbitrary: s)
  case Nil
  then show ?case by (simp add: LogBuffer_flush_quiet_sink)
next
  case (Cons others rest)
  show ?case
  proof (cases "buf_open s")
    case False
    then show ?thesis using Cons.prems(1) by (simp add: LogBuffer_flush_quiet_sink)
  next
    case True
    obtain s1 where fl: "LogBuffer_flush s = (Returned, s1)" and fn1: "buf_fn s1 = buf_fn s"
      using Cons.prems(1) by (simp add: LogBuffer_flush_quiet_sink)
    let ?s2 = "LogBuffer_requests others s1"
    have quiet: "\<forall>h b. buf_fn ?s2 h b = None"
      using Cons.prems(1) fn1 by (simp add: LogBuffer_requests_fn)
    have "\<not> buf_open ?s2 \<or> Close \<in> set (concat rest)"
      using Cons.prems(2) True LogBuffer_requests_close[of others s1] by auto
    then obtain s' where "TimedLogBuffer_flush_loop rest ?s2 = (Some Returned, s')"
      using Cons.IH[OF quiet] by blast
    then show ?thesis using True fl by simp
  qed
qed


subsection \<open>\<^verbatim>\<open>MaxSizeLogBuffer.flush_loop\<close>\<close>

lemma MaxSizeLogBuffer_requests_append:
  "MaxSizeLogBuffer_requests (rs @ rs') s
     = MaxSizeLogBuffer_requests rs' (MaxSizeLogBuffer_requests rs s)"
  by (induction rs arbitrary: s) auto

lemma await_event_outcome:
  "fst (await_event rs late s) = Returned \<or> fst (await_event rs late s) = Raised TimeoutError"
  by (induction rs arbitrary: s) (auto simp: Let_def)

lemma await_event_state:
  "snd (await_event rs late s) = MaxSizeLogBuffer_requests (rs @ late) s"
  by (induction rs arbitrary: s) (auto simp: Let_def)

lemma wait_for_outcome:
  "fst (wait_for w s) = Returned \<or> fst (wait_for w s) = Raised TimeoutError"
proof (cases w)
  case (Wait early during late)
  then show ?thesis
    using await_event_outcome[of during late "MaxSizeLogBuffer_requests early s"]
    by (auto simp: Let_def)
qed

lemma wait_for_state:
  "snd (wait_for (Wait early during late) s)
     = MaxSizeLogBuffer_requests (early @ during @ late) s"
  by (simp add: Let_def await_event_state MaxSizeLogBuffer_requests_append)

lemma max_size_loop_close_escapes:
  assumes "buf_open s" and "\<not> buf_open (snd (wait_for w s))"
  shows "MaxSizeLogBuffer_flush_loop (w # rest) s
           = (Some (Raised BufferClosedError), snd (wait_for w s))"
proof -
  obtain r s1 where w: "wait_for w s = (r, s1)"
    by (cases "wait_for w s")
  have closed: "\<not> buf_open s1"
    using assms(2) w by simp
  have call: "MaxSizeLogBuffer_call s1 m = (Raised BufferClosedError, s1)" for m
    using closed by (simp add: MaxSizeLogBuffer_call_def)
  have "r = Returned \<or> r = Raised TimeoutError"
    using wait_for_outcome[of w s] w by simp
  then have "wait_and_mark w s = (Raised BufferClosedError, s1)"
    by (auto simp: wait_and_mark_def w call)
  then show ?thesis
    using assms(1) w by simp
qed

text \<open>
  C2. The loop of \<^verbatim>\<open>TimedLogBuffer\<close> ends as stated: once the buffer is closed it leaves the
  \<^verbatim>\<open>while\<close>, flushes once more and returns with nothing pending (\<open>timed_loop_finishes\<close>,
  \<open>timed_loop_returned\<close>). The loop of \<^verbatim>\<open>MaxSizeLogBuffer\<close> does not. It suspends only in
  \<^verbatim>\<open>wait_for\<close>; when the buffer is closed during that wait, the loop next calls \<^verbatim>\<open>self(...)\<close>
  with a marker, which raises \<^verbatim>\<open>BufferClosedError\<close>; the handler catches
  \<^verbatim>\<open>asyncio.TimeoutError\<close> only, so the error leaves \<^verbatim>\<open>flush_loop\<close> and the final \<^verbatim>\<open>flush\<close> of
  line 125 is not reached (\<open>max_size_loop_close_escapes\<close>). Below, another task appends
  \<^verbatim>\<open>'a'\<close> and closes the buffer during the first wait: the sink is never called and \<^verbatim>\<open>'a'\<close>
  stays pending, where the loop of \<^verbatim>\<open>TimedLogBuffer\<close> on the same schedule delivers it.
\<close>

theorem max_size_flush_loop_closed_while_waiting:
  "MaxSizeLogBuffer_flush_loop [Wait [] [Append (literal ''a''), Close] []]
      (MaxSizeLogBuffer_init (\<lambda>h b. None) (1 / 5) 120 None)
     = (Some (Raised BufferClosedError),
        (MaxSizeLogBuffer_init (\<lambda>h b. None) (1 / 5) 120 None)
          \<lparr>buf_buffer := [[97]], buf_open := False, buf_size := 1\<rparr>)
   \<and> sink_calls (snd (MaxSizeLogBuffer_flush_loop [Wait [] [Append (literal ''a''), Close] []]
      (MaxSizeLogBuffer_init (\<lambda>h b. None) (1 / 5) 120 None))) = []
   \<and> TimedLogBuffer_flush_loop [[Append (literal ''a''), Close]]
      (TimedLogBuffer_init (\<lambda>h b. None) (1 / 10) None)
     = (Some Returned,
        (TimedLogBuffer_init (\<lambda>h b. None) (1 / 10) None)
          \<lparr>buf_open := False, sink_calls := [[97]]\<rparr>)"
  by (simp add: MaxSizeLogBuffer_init_def TimedLogBuffer_init_def wait_and_mark_def
        MaxSizeLogBuffer_request_def MaxSizeLogBuffer_call_def LogBuffer_close_def
        LogBuffer_request_def LogBuffer_call_def LogBuffer_flush_def call_sink_def
        apply_formatter_def literal_def encode_codepoint_def newline_def Let_def)

lemma MaxSizeLogBuffer_call_encodable:
  assumes "buf_open s" and "encodable (apply_formatter s m)"
  shows "MaxSizeLogBuffer_call s m
    = (Returned,
       s\<lparr>buf_buffer := buf_buffer s @ [apply_formatter s m],
         buf_size := buf_size s + encoded_size (apply_formatter s m),
         SizeExceeded := SizeExceeded s
           \<or> buf_max_size s < buf_size s + encoded_size (apply_formatter s m)\<rparr>)"
  using assms
  by (auto simp: MaxSizeLogBuffer_call_def Let_def encodable_def encoded_size_def
        split: sum.splits)

lemma MaxSizeLogBuffer_appends:
  assumes "buf_open s" and "SizeExceeded s = (buf_max_size s < buf_size s)"
    and "list_all encodable (map (apply_formatter s) msgs)"
  shows "MaxSizeLogBuffer_requests (map Append msgs) s
    = s\<lparr>buf_buffer := buf_buffer s @ map (apply_formatter s) msgs,
        buf_size := buf_size s + sum_list (map encoded_size (map (apply_formatter s) msgs)),
        SizeExceeded :=
          buf_max_size s
            < buf_size s + sum_list (map encoded_size (map (apply_formatter s) msgs))\<rparr>"
  using assms
proof (induction msgs arbitrary: s)
  case Nil
  then show ?case by simp
next
  case (Cons m msgs)
  let ?s1 = "s\<lparr>buf_buffer := buf_buffer s @ [apply_formatter s m],
         buf_size := buf_size s + encoded_size (apply_formatter s m),
         SizeExceeded := SizeExceeded s
           \<or> buf_max_size s < buf_size s + encoded_size (apply_formatter s m)\<rparr>"
  have step: "MaxSizeLogBuffer_requests (map Append (m # msgs)) s
      = MaxSizeLogBuffer_requests (map Append msgs) ?s1"
    using Cons.prems by (simp add: MaxSizeLogBuffer_request_def MaxSizeLogBuffer_call_encodable)
  have cons1: "SizeExceeded ?s1 = (buf_max_size ?s1 < buf_size ?s1)"
    using Cons.prems(2) encoded_size_nonneg[of "apply_formatter s m"] by auto
  have "MaxSizeLogBuffer_requests (map Append msgs) ?s1
     = ?s1\<lparr>buf_buffer := buf_buffer ?s1 @ map (apply_formatter ?s1) msgs,
        buf_size := buf_size ?s1 + sum_list (map encoded_size (map (apply_formatter ?s1) msgs)),
        SizeExceeded :=
          buf_max_size ?s1
            < buf_size ?s1 + sum_list (map encoded_size (map (apply_formatter ?s1) msgs))\<rparr>"
    using Cons.prems cons1 by (intro Cons.IH) simp_all
  then show ?case unfolding step by (simp add: add.assoc)
qed

lemma await_event_appends:
  assumes "buf_open s" and "SizeExceeded s = (buf_max_size s < buf_size s)"
    and "\<not> SizeExceeded s"
    and "list_all encodable (map (apply_formatter s) msgs)"
  shows "fst (await_event (map Append msgs) late s)
    = (if buf_max_size s
            < buf_size s + sum_list (map encoded_size (map (apply_formatter s) msgs))
       then Returned else Raised TimeoutError)"
  using assms
proof (induction msgs arbitrary: s)
  case Nil
  then show ?case by simp
next
  case (Cons m msgs)
  let ?s1 = "s\<lparr>buf_buffer := buf_buffer s @ [apply_formatter s m],
         buf_size := buf_size s + encoded_size (apply_formatter s m),
         SizeExceeded := SizeExceeded s
           \<or> buf_max_size s < buf_size s + encoded_size (apply_formatter s m)\<rparr>"
  have call: "snd (MaxSizeLogBuffer_request (Append m) s) = ?s1"
    using Cons.prems by (simp add: MaxSizeLogBuffer_request_def MaxSizeLogBuffer_call_encodable)
  have cons1: "SizeExceeded ?s1 = (buf_max_size ?s1 < buf_size ?s1)"
    using Cons.prems(2) encoded_size_nonneg[of "apply_formatter s m"] by auto
  show ?case
  proof (cases "SizeExceeded ?s1")
    case True
    have "0 \<le> sum_list (map encoded_size (map (apply_formatter s) msgs))"
      by (rule sum_encoded_size_nonneg)
    then have "buf_max_size s
       < buf_size s + sum_list (map encoded_size (map (apply_formatter s) (m # msgs)))"
      using True cons1 by simp
    then show ?thesis
      using True call by (simp add: Let_def)
  next
    case False
    have "fst (await_event (map Append msgs) late ?s1)
      = (if buf_max_size ?s1
            < buf_size ?s1 + sum_list (map encoded_size (map (apply_formatter ?s1) msgs))
         then Returned else Raised TimeoutError)"
      using Cons.prems cons1 False by (intro Cons.IH) simp_all
    then show ?thesis
      using False call by (simp add: Let_def add.assoc)
  qed
qed

lemma wait_for_appends:
  assumes "buf_open s" and "SizeExceeded s = (buf_max_size s < buf_size s)"
    and "list_all encodable (map (apply_formatter s) (early @ during))"
  shows "fst (wait_for (Wait (map Append early) (map Append during) late) s)
    = (if 0 < buf_time s
          \<and> buf_max_size s
              < buf_size s
                + sum_list (map encoded_size (map (apply_formatter s) (early @ during)))
       then Returned else Raised TimeoutError)"
proof (cases "0 < buf_time s")
  case False
  then show ?thesis by simp
next
  case True
  let ?e = "sum_list (map encoded_size (map (apply_formatter s) early))"
  let ?d = "sum_list (map encoded_size (map (apply_formatter s) during))"
  let ?s1 = "MaxSizeLogBuffer_requests (map Append early) s"
  have enc: "list_all encodable (map (apply_formatter s) early)"
    "list_all encodable (map (apply_formatter s) during)"
    using assms(3) by simp_all
  have s1: "?s1 = s\<lparr>buf_buffer := buf_buffer s @ map (apply_formatter s) early,
        buf_size := buf_size s + ?e,
        SizeExceeded := buf_max_size s < buf_size s + ?e\<rparr>"
    using assms(1,2) enc(1) by (rule MaxSizeLogBuffer_appends)
  have total: "sum_list (map encoded_size (map (apply_formatter s) (early @ during))) = ?e + ?d"
    by simp
  show ?thesis
  proof (cases "SizeExceeded ?s1")
    case set: True
    have "0 \<le> ?d"
      by (rule sum_encoded_size_nonneg)
    then have "buf_max_size s < buf_size s + (?e + ?d)"
      using set by (simp add: s1)
    then show ?thesis
      using True set unfolding total by (simp add: Let_def)
  next
    case clear: False
    have "fst (await_event (map Append during) late ?s1)
       = (if buf_max_size ?s1
            < buf_size ?s1 + sum_list (map encoded_size (map (apply_formatter ?s1) during))
          then Returned else Raised TimeoutError)"
    proof (rule await_event_appends)
      show "buf_open ?s1"
        using assms(1) by (simp add: s1)
      show "SizeExceeded ?s1 = (buf_max_size ?s1 < buf_size ?s1)"
        by (simp add: s1)
      show "\<not> SizeExceeded ?s1"
        by (rule clear)
      show "list_all encodable (map (apply_formatter ?s1) during)"
        using enc(2) by (simp add: s1)
    qed
    then have "fst (await_event (map Append during) late ?s1)
       = (if buf_max_size s < buf_size s + (?e + ?d) then Returned else Raised TimeoutError)"
      by (simp add: s1 add.assoc)
    then show ?thesis
      using True clear unfolding total by (simp add: Let_def)
  qed
qed

lemma MaxSizeLogBuffer_flush_open:
  "buf_open (snd (MaxSizeLogBuffer_flush s)) = buf_open s"
  by (simp add: MaxSizeLogBuffer_flush_def call_sink_def split: option.splits)

text \<open>
  C6. One round of the loop of \<^verbatim>\<open>MaxSizeLogBuffer\<close>, on an open buffer whose event is set
  exactly when the counter exceeds \<^verbatim>\<open>max_size\<close> (as after construction with a \<^verbatim>\<open>max_size\<close> that
  is not negative, and after every flush), while the other tasks append messages: some before
  the inner wait starts, some during the wait, some after the wake-up is decided. If
  \<^verbatim>\<open>buffer_time\<close> is positive and the counter, with the sizes appended before the timer fires
  added, exceeds \<^verbatim>\<open>max_size\<close>, the loop appends \<^verbatim>\<open>'[flusher] maximum buffer size exceeded'\<close>;
  otherwise the wait times out and it appends \<^verbatim>\<open>'[flusher] maximum buffer time exceeded'\<close>.
  It appends the marker with \<^verbatim>\<open>__call__\<close>, as any message, and flushes: the sink is invoked
  once, with everything pending joined by newline, and the marker is the last entry of the
  batch. The marker is stored as \<^verbatim>\<open>__call__\<close> stores every message: as it is when no formatter
  is configured, as the formatter returns it otherwise. All messages stored are assumed
  encodable.
\<close>

theorem flush_loop_marker:
  assumes "buf_open s"
    and "SizeExceeded s = (buf_max_size s < buf_size s)"
    and "list_all encodable (map (apply_formatter s)
           (early @ during @ late
            @ [literal ''[flusher] maximum buffer size exceeded'',
               literal ''[flusher] maximum buffer time exceeded'']))"
    and "pending = buf_buffer s @ map (apply_formatter s) (early @ during @ late)"
    and "counted
           = buf_size s + sum_list (map encoded_size (map (apply_formatter s) (early @ during)))"
    and "marker = (if 0 < buf_time s \<and> buf_max_size s < counted
                   then literal ''[flusher] maximum buffer size exceeded''
                   else literal ''[flusher] maximum buffer time exceeded'')"
  shows "sink_calls (snd (MaxSizeLogBuffer_flush_loop
             [Wait (map Append early) (map Append during) (map Append late)] s))
           = sink_calls s @ [join newline (pending @ [apply_formatter s marker])]
         \<and> join newline (pending @ [apply_formatter s marker])
           = (if pending = [] then apply_formatter s marker
              else join newline pending @ newline @ apply_formatter s marker)"
proof -
  let ?w = "Wait (map Append early) (map Append during) (map Append late)"
  define msgs where "msgs = early @ during @ late"
  let ?s1 = "MaxSizeLogBuffer_requests (map Append msgs) s"
  have enc: "list_all encodable (map (apply_formatter s) msgs)"
    and enc_wait: "list_all encodable (map (apply_formatter s) (early @ during))"
    and enc_size: "encodable (apply_formatter s size_marker)"
    and enc_time: "encodable (apply_formatter s time_marker)"
    using assms(3) by (simp_all add: size_marker_def time_marker_def msgs_def)
  have pending: "pending = buf_buffer s @ map (apply_formatter s) msgs"
    using assms(4) by (simp add: msgs_def)
  have s1: "?s1 = s\<lparr>buf_buffer := buf_buffer s @ map (apply_formatter s) msgs,
        buf_size := buf_size s + sum_list (map encoded_size (map (apply_formatter s) msgs)),
        SizeExceeded := buf_max_size s
          < buf_size s + sum_list (map encoded_size (map (apply_formatter s) msgs))\<rparr>"
    using assms(1,2) enc by (rule MaxSizeLogBuffer_appends)
  have open1: "buf_open ?s1" and fmt1: "apply_formatter ?s1 = apply_formatter s"
    and calls1: "sink_calls ?s1 = sink_calls s"
    and buf1: "buf_buffer ?s1 = pending"
    using assms(1) pending by (simp_all add: s1)
  have state: "snd (wait_for ?w s) = ?s1"
    by (simp only: wait_for_state map_append msgs_def)
  have outcome: "fst (wait_for ?w s)
      = (if 0 < buf_time s \<and> buf_max_size s < counted then Returned else Raised TimeoutError)"
    using wait_for_appends[OF assms(1,2) enc_wait, of "map Append late"] assms(5) by simp
  have mk: "marker = (if 0 < buf_time s \<and> buf_max_size s < counted
                      then size_marker else time_marker)"
    using assms(6) by (simp add: size_marker_def time_marker_def)
  have enc_mk: "encodable (apply_formatter ?s1 marker)"
    using enc_size enc_time by (simp add: fmt1 mk)
  obtain s2 where call: "MaxSizeLogBuffer_call ?s1 marker = (Returned, s2)"
    and buf2: "buf_buffer s2 = pending @ [apply_formatter s marker]"
    and calls2: "sink_calls s2 = sink_calls s"
    and open2: "buf_open s2"
    using MaxSizeLogBuffer_call_encodable[OF open1 enc_mk] open1
    by (simp add: fmt1 buf1 calls1)
  have mark: "wait_and_mark ?w s = (Returned, s2)"
  proof (cases "0 < buf_time s \<and> buf_max_size s < counted")
    case True
    then have "wait_for ?w s = (Returned, ?s1)"
      using outcome state by (metis prod.collapse)
    then show ?thesis
      using call True by (simp add: wait_and_mark_def mk del: wait_for.simps)
  next
    case False
    then have "wait_for ?w s = (Raised TimeoutError, ?s1)"
      using outcome state by (metis prod.collapse)
    then show ?thesis
      using call False by (simp add: wait_and_mark_def mk del: wait_for.simps)
  qed
  have "sink_calls (snd (MaxSizeLogBuffer_flush s2))
      = sink_calls s @ [join newline (buf_buffer s2)]"
    using buf2 calls2
    by (simp add: MaxSizeLogBuffer_flush_def call_sink_def split: option.splits)
  moreover have "sink_calls (snd (MaxSizeLogBuffer_flush_loop [?w] s))
      = sink_calls (snd (MaxSizeLogBuffer_flush s2))"
    using assms(1) mark open2 MaxSizeLogBuffer_flush_open[of s2]
    by (cases "MaxSizeLogBuffer_flush s2") (auto split: outcome.splits)
  ultimately have "sink_calls (snd (MaxSizeLogBuffer_flush_loop [?w] s))
           = sink_calls s @ [join newline (pending @ [apply_formatter s marker])]"
    by (simp add: buf2)
  then show ?thesis by (simp add: join_snoc)
qed

text \<open>
  The witness, with \<^verbatim>\<open>max_size\<close> 10 and no formatter. A message of 12 bytes arrives during the
  wait: the batch ends with the size marker. A message of 3 bytes arrives: it ends with the
  time marker. The 12 bytes arrive only after the timer has fired: the time marker again. And
  with \<^verbatim>\<open>buffer_time\<close> 0 and the event set on entry: the time marker.
\<close>

theorem flush_loop_marker_witness:
  "sink_calls (snd (MaxSizeLogBuffer_flush_loop [Wait [] [Append (literal ''0123456789ab'')] []]
       (MaxSizeLogBuffer_init (\<lambda>h b. None) (1 / 5) 10 None)))
     = [literal ''0123456789ab'' @ [10] @ literal ''[flusher] maximum buffer size exceeded'']
   \<and> sink_calls (snd (MaxSizeLogBuffer_flush_loop [Wait [] [Append (literal ''abc'')] []]
       (MaxSizeLogBuffer_init (\<lambda>h b. None) (1 / 5) 10 None)))
     = [literal ''abc'' @ [10] @ literal ''[flusher] maximum buffer time exceeded'']
   \<and> sink_calls (snd (MaxSizeLogBuffer_flush_loop
       [Wait [] [Append (literal ''abc'')] [Append (literal ''0123456789ab'')]]
       (MaxSizeLogBuffer_init (\<lambda>h b. None) (1 / 5) 10 None)))
     = [literal ''abc'' @ [10] @ literal ''0123456789ab'' @ [10]
        @ literal ''[flusher] maximum buffer time exceeded'']
   \<and> sink_calls (snd (MaxSizeLogBuffer_flush_loop [Wait [] [] []]
       ((MaxSizeLogBuffer_init (\<lambda>h b. None) 0 10 None)
          \<lparr>buf_buffer := [literal ''0123456789ab''], buf_size := 12, SizeExceeded := True\<rparr>)))
     = [literal ''0123456789ab'' @ [10] @ literal ''[flusher] maximum buffer time exceeded'']"
proof -
  let ?s = "MaxSizeLogBuffer_init (\<lambda>h b. None) (1 / 5) 10 None"
  let ?z = "(MaxSizeLogBuffer_init (\<lambda>h b. None) 0 10 None)
          \<lparr>buf_buffer := [literal ''0123456789ab''], buf_size := 12, SizeExceeded := True\<rparr>"
  let ?size = "literal ''[flusher] maximum buffer size exceeded''"
  let ?time = "literal ''[flusher] maximum buffer time exceeded''"
  have fmt: "apply_formatter ?s = (\<lambda>m. m)"
    "apply_formatter (MaxSizeLogBuffer_init (\<lambda>h b. None) 0 10 None) = (\<lambda>m. m)"
    by (simp_all add: apply_formatter_def MaxSizeLogBuffer_init_def fun_eq_iff)
  have fields: "buf_open ?s" "SizeExceeded ?s = (buf_max_size ?s < buf_size ?s)"
    "buf_buffer ?s = []" "sink_calls ?s = []" "buf_size ?s = 0" "buf_max_size ?s = 10"
    "0 < buf_time ?s"
    by (simp_all add: MaxSizeLogBuffer_init_def)
  have fields_z: "buf_open ?z" "SizeExceeded ?z = (buf_max_size ?z < buf_size ?z)"
    "buf_buffer ?z = [literal ''0123456789ab'']" "sink_calls ?z = []" "\<not> 0 < buf_time ?z"
    by (simp_all add: MaxSizeLogBuffer_init_def)
  have markers: "encodable ?size" "encodable ?time"
    by (simp_all add: encodable_def literal_def encode_codepoint_def)
  have long: "encodable (literal ''0123456789ab'')"
    "encoded_size (literal ''0123456789ab'') = 12"
    by (simp_all add: encodable_def encoded_size_def literal_def encode_codepoint_def)
  have short: "encodable (literal ''abc'')" "encoded_size (literal ''abc'') = 3"
    by (simp_all add: encodable_def encoded_size_def literal_def encode_codepoint_def)
  have a: "sink_calls (snd (MaxSizeLogBuffer_flush_loop
        [Wait [] [Append (literal ''0123456789ab'')] []] ?s))
     = [literal ''0123456789ab'' @ [10] @ ?size]"
    using flush_loop_marker[where s = ?s and early = "[]"
        and during = "[literal ''0123456789ab'']" and late = "[]", OF fields(1,2) _ refl refl refl]
      markers long fields(3-7)
    by (simp add: fmt newline_def del: MaxSizeLogBuffer_flush_loop.simps)
  have b: "sink_calls (snd (MaxSizeLogBuffer_flush_loop [Wait [] [Append (literal ''abc'')] []] ?s))
     = [literal ''abc'' @ [10] @ ?time]"
    using flush_loop_marker[where s = ?s and early = "[]"
        and during = "[literal ''abc'']" and late = "[]", OF fields(1,2) _ refl refl refl]
      markers short fields(3-7)
    by (simp add: fmt newline_def del: MaxSizeLogBuffer_flush_loop.simps)
  have c: "sink_calls (snd (MaxSizeLogBuffer_flush_loop
        [Wait [] [Append (literal ''abc'')] [Append (literal ''0123456789ab'')]] ?s))
     = [literal ''abc'' @ [10] @ literal ''0123456789ab'' @ [10] @ ?time]"
    using flush_loop_marker[where s = ?s and early = "[]"
        and during = "[literal ''abc'']" and late = "[literal ''0123456789ab'']",
        OF fields(1,2) _ refl refl refl]
      markers short long fields(3-7)
    by (simp add: fmt newline_def del: MaxSizeLogBuffer_flush_loop.simps)
  have d: "sink_calls (snd (MaxSizeLogBuffer_flush_loop [Wait [] [] []] ?z))
     = [literal ''0123456789ab'' @ [10] @ ?time]"
    using flush_loop_marker[where s = ?z and early = "[]" and during = "[]" and late = "[]",
        OF fields_z(1,2) _ refl refl refl]
      markers fields_z(3-5)
    by (simp add: fmt newline_def del: MaxSizeLogBuffer_flush_loop.simps)
  from a b c d show ?thesis by simp
qed

end
